theory Spec2Isabelle
  imports Main "HOL-Library.Word"
begin

section \<open>Memory model of \<open>observable_clock.hpp\<close>\<close>

text \<open>
  The header keeps its observers in an intrusive singly linked list: the caller owns every
  \<open>ObserverNode\<close>, the clock only links them through their \<open>next\<close> fields. The model
  therefore has an explicit store. A pointer is \<open>NULL\<close> or the address of an object;
  \<open>size_t\<close> is an unsigned machine word of some width \<open>'w\<close> (64 bits on LP64 targets),
  so \<open>+\<close> wraps and \<open>mod\<close>, \<open>div\<close>, \<open>\<le>\<close> and \<open><\<close> are the unsigned operations of C.
\<close>

type_synonym addr = nat

datatype ptr = NULL | Ptr addr

text \<open>\<open>struct ObserverNode { callback_t callback; void *data; ObserverNode *next; }\<close>\<close>

record ObserverNode =
  callback :: ptr
  data :: ptr
  "next" :: ptr

text \<open>\<open>typedef struct { bool signal; size_t period; size_t time; ObserverNode *observers; } Clock\<close>\<close>

record (overloaded) 'w Clock =
  signal :: bool
  period :: "'w word"
  time :: "'w word"
  observers :: ptr

text \<open>
  The world a call runs in: the clocks and the observer nodes, each by address, and two
  records of what a call did besides writing memory. A callback is a function pointer whose
  body is the caller's, not the header's: calling it is recorded in \<open>calls\<close> as the pair
  (function pointer, argument), in the order of the calls, and changes nothing else.
  \<open>notifications\<close> counts the traversals started by \<open>clock_notify_listeners\<close>.
\<close>

record (overloaded) 'w world =
  clocks :: "addr \<Rightarrow> 'w Clock"
  nodes :: "addr \<Rightarrow> ObserverNode"
  calls :: "(ptr \<times> ptr) list"
  notifications :: nat

text \<open>
  \<open>ObserverNode **current\<close> in \<open>clock_remove_observer\<close> points at a pointer field:
  the \<open>observers\<close> field of a clock or the \<open>next\<close> field of a node.
\<close>

datatype loc = ClkObservers addr | NodeNext addr

fun load :: "'w world \<Rightarrow> loc \<Rightarrow> ptr" where
  "load w (ClkObservers c) = observers (clocks w c)"
| "load w (NodeNext a) = next (nodes w a)"

fun store :: "'w world \<Rightarrow> loc \<Rightarrow> ptr \<Rightarrow> 'w world" where
  "store w (ClkObservers c) p = w\<lparr>clocks := (clocks w)(c := (clocks w c)\<lparr>observers := p\<rparr>)\<rparr>"
| "store w (NodeNext a) p = w\<lparr>nodes := (nodes w)(a := (nodes w a)\<lparr>next := p\<rparr>)\<rparr>"

section \<open>The operations\<close>

text \<open>
  \<open>clock_init\<close> writes through \<open>clk\<close> without a check, so a null \<open>clk\<close> is a fault.
\<close>

datatype fault = NullDereference

definition clock_init :: "ptr \<Rightarrow> 'w::len word \<Rightarrow> 'w world \<Rightarrow> fault + 'w world" where
  "clock_init clk p w =
     (case clk of
        NULL \<Rightarrow> Inl NullDereference
      | Ptr c \<Rightarrow>
          Inr (w\<lparr>clocks := (clocks w)
                 (c := (clocks w c)\<lparr>period := p, time := 0, signal := True, observers := NULL\<rparr>)\<rparr>))"

text \<open>
  \<open>if (!clk || !observer) return; observer->next = clk->observers; clk->observers = observer;\<close>
\<close>

definition clock_add_observer :: "ptr \<Rightarrow> ptr \<Rightarrow> 'w world \<Rightarrow> 'w world" where
  "clock_add_observer clk observer w =
     (case (clk, observer) of
        (Ptr c, Ptr a) \<Rightarrow>
          store (store w (NodeNext a) (load w (ClkObservers c))) (ClkObservers c) observer
      | _ \<Rightarrow> w)"

text \<open>
  The \<open>while (*current)\<close> loop of \<open>clock_remove_observer\<close>. On a chain that runs into
  itself and does not hold \<open>observer\<close> the loop never ends: the result is then \<open>None\<close>.
\<close>

partial_function (option) remove_loop :: "loc \<Rightarrow> addr \<Rightarrow> 'w world \<Rightarrow> 'w world option" where
  "remove_loop current observer w =
     (case load w current of
        NULL \<Rightarrow> Some w
      | Ptr a \<Rightarrow>
          if a = observer then Some (store w current (next (nodes w observer)))
          else remove_loop (NodeNext a) observer w)"

definition clock_remove_observer :: "ptr \<Rightarrow> ptr \<Rightarrow> 'w world \<Rightarrow> 'w world option" where
  "clock_remove_observer clk observer w =
     (case (clk, observer) of
        (Ptr c, Ptr a) \<Rightarrow> remove_loop (ClkObservers c) a w
      | _ \<Rightarrow> Some w)"

text \<open>\<open>if (obs->callback && obs->data) obs->callback(obs->data);\<close>\<close>

definition invoke :: "ObserverNode \<Rightarrow> 'w world \<Rightarrow> 'w world" where
  "invoke obs w =
     (if callback obs \<noteq> NULL \<and> data obs \<noteq> NULL
      then w\<lparr>calls := calls w @ [(callback obs, data obs)]\<rparr> else w)"

text \<open>The \<open>for\<close> loop of \<open>clock_notify_listeners\<close>, from the node \<open>obs\<close> on.\<close>

partial_function (option) notify_loop :: "ptr \<Rightarrow> 'w world \<Rightarrow> 'w world option" where
  "notify_loop obs w =
     (case obs of
        NULL \<Rightarrow> Some w
      | Ptr a \<Rightarrow> notify_loop (next (nodes w a)) (invoke (nodes w a) w))"

definition clock_notify_listeners :: "ptr \<Rightarrow> 'w world \<Rightarrow> 'w world option" where
  "clock_notify_listeners clk w =
     (case clk of
        NULL \<Rightarrow> Some w
      | Ptr c \<Rightarrow> notify_loop (observers (clocks w c)) (w\<lparr>notifications := notifications w + 1\<rparr>))"

definition upd_clock :: "addr \<Rightarrow> ('w Clock \<Rightarrow> 'w Clock) \<Rightarrow> 'w world \<Rightarrow> 'w world" where
  "upd_clock c f w = w\<lparr>clocks := (clocks w)(c := f (clocks w c))\<rparr>"

text \<open>
  \<open>if (!clk || clk->period == 0) return;
  clk->time += delta_time;
  clk->signal = (clk->time % clk->period) < (clk->period / 2);
  if (clk->time >= clk->period) { clk->time = 0; clock_notify_listeners(clk); }\<close>
\<close>

definition clock_tick :: "ptr \<Rightarrow> 'w::len word \<Rightarrow> 'w world \<Rightarrow> 'w world option" where
  "clock_tick clk delta_time w =
     (case clk of
        NULL \<Rightarrow> Some w
      | Ptr c \<Rightarrow>
          if period (clocks w c) = 0 then Some w
          else
            let w1 = upd_clock c (\<lambda>k. k\<lparr>time := time k + delta_time\<rparr>) w;
                w2 = upd_clock c (\<lambda>k. k\<lparr>signal := (time k mod period k < period k div 2)\<rparr>) w1
            in if period (clocks w2 c) \<le> time (clocks w2 c)
               then clock_notify_listeners clk (upd_clock c (\<lambda>k. k\<lparr>time := 0\<rparr>) w2)
               else Some w2)"

section \<open>Well-formed registries\<close>

text \<open>
  \<open>chain h p as\<close>: following \<open>next\<close> from the pointer \<open>p\<close> visits exactly the nodes
  \<open>as\<close>, in this order, and then reaches \<open>NULL\<close>. This is the registry the header
  maintains as long as no node is added while it is registered; \<open>invocations h as\<close> are
  the callback calls of one traversal of it.
\<close>

fun chain :: "(addr \<Rightarrow> ObserverNode) \<Rightarrow> ptr \<Rightarrow> addr list \<Rightarrow> bool" where
  "chain h p [] = (p = NULL)"
| "chain h p (a # as) = (p = Ptr a \<and> chain h (next (h a)) as)"

fun invocations :: "(addr \<Rightarrow> ObserverNode) \<Rightarrow> addr list \<Rightarrow> (ptr \<times> ptr) list" where
  "invocations h [] = []"
| "invocations h (a # as) =
     (if callback (h a) \<noteq> NULL \<and> data (h a) \<noteq> NULL then [(callback (h a), data (h a))] else [])
     @ invocations h as"

text \<open>
  The location whose pointer \<open>clock_remove_observer\<close> overwrites when it finds
  \<open>observer\<close> in the chain \<open>as\<close> that starts at \<open>current\<close>: \<open>current\<close> itself
  when the chain begins with \<open>observer\<close>, the \<open>next\<close> field of its predecessor otherwise.
\<close>

fun link_of :: "loc \<Rightarrow> addr \<Rightarrow> addr list \<Rightarrow> loc" where
  "link_of current observer [] = current"
| "link_of current observer (x # xs) =
     (if x = observer then current else link_of (NodeNext x) observer xs)"

text \<open>
  \<open>outside l as\<close>: the pointer field \<open>l\<close> is not the \<open>next\<close> field of a node of \<open>as\<close>.
\<close>

fun outside :: "loc \<Rightarrow> addr list \<Rightarrow> bool" where
  "outside (ClkObservers c) as = True"
| "outside (NodeNext b) as = (b \<notin> set as)"

section \<open>Drivers and example stores\<close>

text \<open>
  The caller's loop, as in the header's example \<open>for (...) clock_tick(&clk, 25);\<close>:
  one \<open>clock_tick\<close> per delta of the list, in order.
\<close>

fun tick_seq :: "ptr \<Rightarrow> 'w::len word list \<Rightarrow> 'w world \<Rightarrow> 'w world option" where
  "tick_seq clk [] w = Some w"
| "tick_seq clk (d # ds) w =
     (case clock_tick clk d w of None \<Rightarrow> None | Some w' \<Rightarrow> tick_seq clk ds w')"

text \<open>A store in which nothing has been set up: every field of every object is zero.\<close>

definition world0 :: "'w::len world" where
  "world0 =
     \<lparr>clocks = (\<lambda>_. \<lparr>signal = False, period = 0, time = 0, observers = NULL\<rparr>),
      nodes = (\<lambda>_. \<lparr>callback = NULL, data = NULL, next = NULL\<rparr>),
      calls = [],
      notifications = 0\<rparr>"

text \<open>
  The store of the header's example: \<open>node1 = {foo, "Somebody's ...", NULL}\<close> at address 1,
  \<open>node2 = {bar, &i, NULL}\<close> at address 2 (the functions and their arguments at
  addresses 10, 11, 20 and 21), and the clock at address 0 after \<open>clock_init(&clk, 100)\<close>.
\<close>

definition example_world :: "64 world" where
  "example_world =
     \<lparr>clocks = (\<lambda>_. \<lparr>signal = False, period = 0, time = 0, observers = NULL\<rparr>)
        (0 := \<lparr>signal = True, period = 100, time = 0, observers = NULL\<rparr>),
      nodes = (\<lambda>_. \<lparr>callback = NULL, data = NULL, next = NULL\<rparr>)
        (1 := \<lparr>callback = Ptr 10, data = Ptr 11, next = NULL\<rparr>,
         2 := \<lparr>callback = Ptr 20, data = Ptr 21, next = NULL\<rparr>),
      calls = [],
      notifications = 0\<rparr>"

section \<open>Traversals of a well-formed registry\<close>

lemma nodes_invoke [simp]: "nodes (invoke n w) = nodes w"
  and clocks_invoke [simp]: "clocks (invoke n w) = clocks w"
  and notifications_invoke [simp]: "notifications (invoke n w) = notifications w"
  by (simp_all add: invoke_def)

lemma notify_loop_chain:
  "chain (nodes w) p as \<Longrightarrow>
   notify_loop p w = Some (w\<lparr>calls := calls w @ invocations (nodes w) as\<rparr>)"
proof (induction as arbitrary: p w)
  case Nil
  then show ?case by (simp add: notify_loop.simps)
next
  case (Cons a as)
  from Cons.prems have p: "p = Ptr a" and c: "chain (nodes w) (next (nodes w a)) as" by simp_all
  have "notify_loop p w = notify_loop (next (nodes w a)) (invoke (nodes w a) w)"
    by (subst notify_loop.simps) (simp add: p)
  also have "\<dots> = Some ((invoke (nodes w a) w)\<lparr>calls := calls (invoke (nodes w a) w) @ invocations (nodes w) as\<rparr>)"
    using Cons.IH [of "invoke (nodes w a) w" "next (nodes w a)"] c by simp
  finally show ?case by (simp add: invoke_def)
qed

lemma notify_loop_frame:
  assumes "notify_loop p w = Some w'"
  shows "clocks w' = clocks w \<and> nodes w' = nodes w \<and> notifications w' = notifications w"
proof (rule notify_loop.raw_induct
    [where P = "\<lambda>p w w'. clocks w' = clocks w \<and> nodes w' = nodes w \<and> notifications w' = notifications w",
     OF _ assms], goal_cases)
  case (1 f p w w')
  show ?case
  proof (cases p)
    case NULL
    with 1(2) show ?thesis by simp
  next
    case (Ptr a)
    with 1(2) have "f (next (nodes w a)) (invoke (nodes w a) w) = Some w'" by simp
    from 1(1) [OF this] show ?thesis by simp
  qed
qed


lemma clock_tick_Some:
  assumes "clock_tick (Ptr c) d w = Some w'" and "period (clocks w c) \<noteq> 0"
  shows "nodes w' = nodes w"
    and "clocks w' = (clocks w)(c := (clocks w c)
           \<lparr>time := (if period (clocks w c) \<le> time (clocks w c) + d then 0 else time (clocks w c) + d),
            signal := ((time (clocks w c) + d) mod period (clocks w c) < period (clocks w c) div 2)\<rparr>)"
    and "notifications w' =
           notifications w + (if period (clocks w c) \<le> time (clocks w c) + d then 1 else 0)"
proof -
  let ?k = "clocks w c"
  show "nodes w' = nodes w"
    using assms
    by (auto simp: clock_tick_def clock_notify_listeners_def upd_clock_def Let_def
        split: if_splits dest!: notify_loop_frame)
  show "clocks w' = (clocks w)(c := ?k
           \<lparr>time := (if period ?k \<le> time ?k + d then 0 else time ?k + d),
            signal := ((time ?k + d) mod period ?k < period ?k div 2)\<rparr>)"
    using assms
    by (auto simp: clock_tick_def clock_notify_listeners_def upd_clock_def Let_def
        split: if_splits dest!: notify_loop_frame)
  show "notifications w' = notifications w + (if period ?k \<le> time ?k + d then 1 else 0)"
    using assms
    by (auto simp: clock_tick_def clock_notify_listeners_def upd_clock_def Let_def
        split: if_splits dest!: notify_loop_frame)
qed

lemma clock_tick_returns:
  assumes "period (clocks w c) \<noteq> 0" and "chain (nodes w) (observers (clocks w c)) as"
  shows "\<exists>w'. clock_tick (Ptr c) d w = Some w' \<and>
           calls w' = calls w @
             (if period (clocks w c) \<le> time (clocks w c) + d then invocations (nodes w) as else [])"
  using assms
  by (auto simp: clock_tick_def clock_notify_listeners_def upd_clock_def Let_def notify_loop_chain)


section \<open>Initialisation\<close>

text \<open>
  C6. For every period \<open>p\<close> (in particular every \<open>p > 0\<close>), \<open>clock_init(clk, p)\<close> on a
  valid \<open>clk\<close> returns normally, and directly afterwards the clock's signal is HIGH
  (\<open>true\<close>), its phase \<open>time\<close> is 0 and its observer registry is empty: the head pointer
  is \<open>NULL\<close>, the chain of no nodes. The period is the one given.
\<close>

theorem clock_init_state:
  "\<exists>w'. clock_init (Ptr c) p w = Inr w' \<and>
         signal (clocks w' c) = True \<and> time (clocks w' c) = 0 \<and>
         observers (clocks w' c) = NULL \<and> chain (nodes w') (observers (clocks w' c)) [] \<and>
         period (clocks w' c) = p"
  by (simp add: clock_init_def)

section \<open>A clock with period 0\<close>

lemma clock_tick_zero_period:
  "period (clocks w c) = 0 \<Longrightarrow> clock_tick (Ptr c) d w = Some w"
  by (simp add: clock_tick_def)

text \<open>
  C7. On a clock whose period is 0, any sequence of \<open>clock_tick\<close> calls, whatever the
  deltas and however many, returns and leaves the whole store as it was: phase, signal and
  registry are unchanged, no callback is called and no traversal is started.
\<close>

theorem zero_period_ticks_noop:
  "period (clocks w c) = 0 \<Longrightarrow> tick_seq (Ptr c) ds w = Some w"
  by (induction ds) (simp_all add: clock_tick_zero_period)

theorem zero_period_ticks_noop_witness:
  "period (clocks (world0 :: 64 world) 3) = 0 \<and>
   tick_seq (Ptr 3) [5, 0, 18446744073709551615] (world0 :: 64 world) = Some world0"
proof -
  have h: "period (clocks (world0 :: 64 world) 3) = 0" by (simp add: world0_def)
  show ?thesis by (rule conjI [OF h zero_period_ticks_noop [OF h]])
qed

section \<open>The phase after a tick\<close>

text \<open>
  C5. On a clock with period \<open>p > 0\<close>, whenever \<open>clock_tick\<close> returns, the period is
  unchanged and the phase is below it, \<open>0 \<le> time < p\<close>: a tick that rolls over
  (\<open>p \<le> time + delta\<close>, the sum taken in \<open>size_t\<close>) leaves the phase at exactly 0, any
  other tick leaves it at the sum, which is below \<open>p\<close>. When the registry is a well-formed
  chain the call does return.
\<close>

theorem tick_phase_bound:
  assumes "period (clocks w c) \<noteq> 0"
  shows "(clock_tick (Ptr c) d w = Some w' \<longrightarrow>
            period (clocks w' c) = period (clocks w c) \<and>
            time (clocks w' c) < period (clocks w' c) \<and>
            time (clocks w' c) =
              (if period (clocks w c) \<le> time (clocks w c) + d then 0 else time (clocks w c) + d)) \<and>
         (chain (nodes w) (observers (clocks w c)) as \<longrightarrow>
            (\<exists>w''. clock_tick (Ptr c) d w = Some w''))"
proof (intro conjI impI)
  assume t: "clock_tick (Ptr c) d w = Some w'"
  note k = clock_tick_Some(2) [OF t assms]
  show "period (clocks w' c) = period (clocks w c)" by (simp add: k)
  show "time (clocks w' c) =
      (if period (clocks w c) \<le> time (clocks w c) + d then 0 else time (clocks w c) + d)"
    by (simp add: k)
  from assms have "0 < period (clocks w c)" by (simp add: word_greater_zero_iff)
  then show "time (clocks w' c) < period (clocks w' c)" by (simp add: k not_le)
next
  assume "chain (nodes w) (observers (clocks w c)) as"
  from clock_tick_returns [OF assms this, of d]
  show "\<exists>w''. clock_tick (Ptr c) d w = Some w''" by blast
qed

theorem tick_phase_bound_witness:
  "period (clocks example_world 0) \<noteq> 0 \<and>
   chain (nodes example_world) (observers (clocks example_world 0)) [] \<and>
   (\<exists>w'. clock_tick (Ptr 0) 130 example_world = Some w' \<and>
      time (clocks w' 0) = 0 \<and> time (clocks w' 0) < period (clocks w' 0))"
proof -
  have p: "period (clocks example_world 0) \<noteq> 0" by (simp add: example_world_def)
  have ch: "chain (nodes example_world) (observers (clocks example_world 0)) []"
    by (simp add: example_world_def)
  from tick_phase_bound [OF p, of 130 _ "[]"] ch
  obtain w' where t: "clock_tick (Ptr 0) 130 example_world = Some w'" by blast
  from tick_phase_bound [OF p, of 130 w'] t
  have "time (clocks w' 0) < period (clocks w' 0)"
    and "time (clocks w' 0) =
      (if period (clocks example_world 0) \<le> time (clocks example_world 0) + 130 then 0
       else time (clocks example_world 0) + 130)" by blast+
  moreover have "period (clocks example_world 0) \<le> time (clocks example_world 0) + 130"
    by (simp add: example_world_def)
  ultimately show ?thesis using p ch t by simp
qed

section \<open>Fixed-width accumulation\<close>

text \<open>
  C10. \<open>clk->time += delta_time\<close> is \<open>size_t\<close> arithmetic: the stored sum is the true
  sum modulo \<open>2 ^ w\<close>. Whenever the true sum of phase and delta is at least the period
  but the wrapped sum is below it, the addition has overflowed, and the tick takes the
  branch without rollover: it returns with the wrapped sum as the new phase (no reset), starts
  no traversal and calls no callback. The witness is such a tick on a 64-bit clock with
  period 100 and phase 50, \<open>delta = 2^64 - 40\<close>, which leaves the phase at 10.
\<close>

theorem tick_overflow_loses_boundary:
  fixes w :: "'w::len world"
  assumes "unat (period (clocks w c)) \<le> unat (time (clocks w c)) + unat d"
    and "time (clocks w c) + d < period (clocks w c)"
  shows "unat (time (clocks w c) + d) = (unat (time (clocks w c)) + unat d) mod 2 ^ LENGTH('w::len) \<and>
         2 ^ LENGTH('w) \<le> unat (time (clocks w c)) + unat d \<and>
         (\<exists>w'. clock_tick (Ptr c) d w = Some w' \<and>
            time (clocks w' c) = time (clocks w c) + d \<and>
            notifications w' = notifications w \<and> calls w' = calls w \<and> nodes w' = nodes w)"
proof (intro conjI)
  let ?t = "time (clocks w c)" and ?p = "period (clocks w c)"
  show m: "unat (?t + d) = (unat ?t + unat d) mod 2 ^ LENGTH('w)"
    by (simp add: unat_word_ariths)
  from assms(2) have lt: "unat (?t + d) < unat ?p" by (simp add: word_less_nat_alt)
  show "2 ^ LENGTH('w) \<le> unat ?t + unat d"
  proof (rule ccontr)
    assume "\<not> 2 ^ LENGTH('w) \<le> unat ?t + unat d"
    then have "unat (?t + d) = unat ?t + unat d" by (simp add: m)
    with lt assms(1) show False by simp
  qed
  from assms(2) have p: "?p \<noteq> 0" by auto
  from assms(2) have nr: "\<not> ?p \<le> ?t + d" by simp
  show "\<exists>w'. clock_tick (Ptr c) d w = Some w' \<and>
            time (clocks w' c) = ?t + d \<and>
            notifications w' = notifications w \<and> calls w' = calls w \<and> nodes w' = nodes w"
    using p nr by (simp add: clock_tick_def upd_clock_def Let_def)
qed


theorem tick_overflow_loses_boundary_witness:
  "unat (period (clocks (upd_clock 0 (\<lambda>k. k\<lparr>time := 50\<rparr>) example_world) 0))
     \<le> unat (time (clocks (upd_clock 0 (\<lambda>k. k\<lparr>time := 50\<rparr>) example_world) 0))
        + unat (18446744073709551576 :: 64 word) \<and>
   time (clocks (upd_clock 0 (\<lambda>k. k\<lparr>time := 50\<rparr>) example_world) 0) + 18446744073709551576
     < period (clocks (upd_clock 0 (\<lambda>k. k\<lparr>time := 50\<rparr>) example_world) 0) \<and>
   (\<exists>w'. clock_tick (Ptr 0) 18446744073709551576 (upd_clock 0 (\<lambda>k. k\<lparr>time := 50\<rparr>) example_world)
            = Some w' \<and>
      time (clocks w' 0) = 10 \<and> notifications w' = 0 \<and> calls w' = [])"
proof -
  let ?w = "upd_clock 0 (\<lambda>k. k\<lparr>time := 50\<rparr>) example_world"
  have a: "unat (period (clocks ?w 0)) \<le> unat (time (clocks ?w 0)) + unat (18446744073709551576 :: 64 word)"
    by (simp add: upd_clock_def example_world_def)
  have b: "time (clocks ?w 0) + 18446744073709551576 < period (clocks ?w 0)"
    by (simp add: upd_clock_def example_world_def)
  have c: "time (clocks ?w 0) + 18446744073709551576 = 10" "notifications ?w = 0" "calls ?w = []"
    by (simp_all add: upd_clock_def example_world_def)
  from tick_overflow_loses_boundary [OF a b] obtain w' where
    t: "clock_tick (Ptr 0) 18446744073709551576 ?w = Some w'"
    and r: "time (clocks w' 0) = time (clocks ?w 0) + 18446744073709551576"
      "notifications w' = notifications ?w" "calls w' = calls ?w"
    by blast
  from r c have "time (clocks w' 0) = 10" "notifications w' = 0" "calls w' = []"
    by (simp_all only:)
  with a b t show ?thesis by blast
qed

section \<open>The signal after a tick\<close>

text \<open>
  C2, as stated, fails. The claim reads: after every tick, also one that rolls over,
  \<open>signal == ((phase mod p) < p / 2)\<close> for the stored phase. On a clock initialised with
  period 100, \<open>clock_tick(clk, 250)\<close> computes the signal from the accumulated time 250
  (\<open>250 mod 100 = 50\<close>, not below 50: LOW) and then resets the stored phase to 0, for which
  the predicate is true: the signal is LOW where the claim says HIGH.
\<close>

theorem tick_signal_counterexample:
  "map_option
     (\<lambda>w'. (signal (clocks w' 0),
            time (clocks w' 0) mod period (clocks w' 0) < period (clocks w' 0) div 2))
     (clock_tick (Ptr 0) 250 (projr (clock_init (Ptr 0) 100 (world0 :: 64 world))))
   = Some (False, True)"
  by (simp add: clock_init_def world0_def clock_tick_def upd_clock_def Let_def
      clock_notify_listeners_def notify_loop.simps)

text \<open>
  C2, amended. On a clock with period \<open>p > 0\<close>, whenever \<open>clock_tick\<close> returns, the
  signal is HIGH exactly when \<open>(time + delta) mod p < p / 2\<close>, where \<open>time + delta\<close> is the
  accumulated time (in \<open>size_t\<close>) before any rollover reset. After a tick that does not
  roll over this accumulated time is the stored phase, so then
  \<open>signal == (phase < p / 2) == ((phase mod p) < p / 2)\<close>. When the registry is a
  well-formed chain the call does return.
\<close>

theorem tick_signal:
  assumes "period (clocks w c) \<noteq> 0"
  shows "(clock_tick (Ptr c) d w = Some w' \<longrightarrow>
            signal (clocks w' c) =
              ((time (clocks w c) + d) mod period (clocks w c) < period (clocks w c) div 2) \<and>
            (\<not> period (clocks w c) \<le> time (clocks w c) + d \<longrightarrow>
               time (clocks w' c) = time (clocks w c) + d \<and>
               signal (clocks w' c) = (time (clocks w' c) < period (clocks w' c) div 2) \<and>
               signal (clocks w' c) =
                 (time (clocks w' c) mod period (clocks w' c) < period (clocks w' c) div 2))) \<and>
         (chain (nodes w) (observers (clocks w c)) as \<longrightarrow>
            (\<exists>w''. clock_tick (Ptr c) d w = Some w''))"
proof (intro conjI impI)
  assume t: "clock_tick (Ptr c) d w = Some w'"
  note k = clock_tick_Some(2) [OF t assms]
  show "signal (clocks w' c) =
      ((time (clocks w c) + d) mod period (clocks w c) < period (clocks w c) div 2)"
    by (simp add: k)
  assume nr: "\<not> period (clocks w c) \<le> time (clocks w c) + d"
  then have m: "(time (clocks w c) + d) mod period (clocks w c) = time (clocks w c) + d"
    by (simp add: mod_word_less not_le)
  show "time (clocks w' c) = time (clocks w c) + d" using nr by (simp add: k)
  show "signal (clocks w' c) = (time (clocks w' c) < period (clocks w' c) div 2)"
    using nr by (simp add: k m)
  show "signal (clocks w' c) =
      (time (clocks w' c) mod period (clocks w' c) < period (clocks w' c) div 2)"
    using nr by (simp add: k m)
next
  assume "chain (nodes w) (observers (clocks w c)) as"
  from clock_tick_returns [OF assms this, of d]
  show "\<exists>w''. clock_tick (Ptr c) d w = Some w''" by blast
qed

theorem tick_signal_witness:
  "period (clocks example_world 0) \<noteq> 0 \<and>
   chain (nodes example_world) (observers (clocks example_world 0)) [] \<and>
   \<not> period (clocks example_world 0) \<le> time (clocks example_world 0) + 75 \<and>
   (\<exists>w'. clock_tick (Ptr 0) 75 example_world = Some w' \<and>
      time (clocks w' 0) = 75 \<and> signal (clocks w' 0) = False \<and>
      signal (clocks w' 0) = (time (clocks w' 0) < period (clocks w' 0) div 2))"
proof -
  have p: "period (clocks example_world 0) \<noteq> 0" by (simp add: example_world_def)
  have ch: "chain (nodes example_world) (observers (clocks example_world 0)) []"
    by (simp add: example_world_def)
  have nr: "\<not> period (clocks example_world 0) \<le> time (clocks example_world 0) + 75"
    by (simp add: example_world_def)
  from tick_signal [OF p, of 75 _ "[]"] ch
  obtain w' where t: "clock_tick (Ptr 0) 75 example_world = Some w'" by blast
  from tick_signal [OF p, of 75 w'] t nr
  have s: "signal (clocks w' 0) =
        ((time (clocks example_world 0) + 75) mod period (clocks example_world 0)
          < period (clocks example_world 0) div 2)"
    and e: "time (clocks w' 0) = time (clocks example_world 0) + 75"
    and q: "signal (clocks w' 0) = (time (clocks w' 0) < period (clocks w' 0) div 2)"
    by blast+
  from s have "signal (clocks w' 0) = False" by (simp add: example_world_def)
  moreover from e have "time (clocks w' 0) = 75" by (simp add: example_world_def)
  ultimately show ?thesis using p ch nr t q by blast
qed

section \<open>Notifications of one tick\<close>

text \<open>
  C3. On a clock with period \<open>p > 0\<close>, whenever \<open>clock_tick\<close> returns it has started at
  most one traversal of the registry, whatever the delta (one exactly when the tick rolls
  over), and with a well-formed registry it returns and has called the callback of each
  registered observer at most once. In particular, on a 64-bit clock with period 100 and
  phase 0, one \<open>clock_tick(clk, 250)\<close> starts exactly one traversal (not two), calls each
  invocable observer once, resets the phase to 0 and leaves the signal LOW.
\<close>

theorem tick_notifies_at_most_once:
  fixes w :: "'w::len world" and v :: "64 world"
  shows "(period (clocks w c) \<noteq> 0 \<longrightarrow>
            (clock_tick (Ptr c) d w = Some w' \<longrightarrow>
               notifications w' \<le> notifications w + 1 \<and>
               notifications w' =
                 notifications w + (if period (clocks w c) \<le> time (clocks w c) + d then 1 else 0)) \<and>
            (chain (nodes w) (observers (clocks w c)) as \<longrightarrow>
               (\<exists>w''. clock_tick (Ptr c) d w = Some w'' \<and>
                  calls w'' = calls w @
                    (if period (clocks w c) \<le> time (clocks w c) + d
                     then invocations (nodes w) as else [])))) \<and>
         (period (clocks v b) = 100 \<and> time (clocks v b) = 0 \<and>
          chain (nodes v) (observers (clocks v b)) bs \<longrightarrow>
            (\<exists>v'. clock_tick (Ptr b) 250 v = Some v' \<and>
               notifications v' = notifications v + 1 \<and>
               calls v' = calls v @ invocations (nodes v) bs \<and>
               time (clocks v' b) = 0 \<and> signal (clocks v' b) = False))"
proof (intro conjI impI)
  assume p: "period (clocks w c) \<noteq> 0" and t: "clock_tick (Ptr c) d w = Some w'"
  show n: "notifications w' =
      notifications w + (if period (clocks w c) \<le> time (clocks w c) + d then 1 else 0)"
    by (rule clock_tick_Some(3) [OF t p])
  show "notifications w' \<le> notifications w + 1" by (simp add: n)
next
  assume p: "period (clocks w c) \<noteq> 0" and ch: "chain (nodes w) (observers (clocks w c)) as"
  show "\<exists>w''. clock_tick (Ptr c) d w = Some w'' \<and>
      calls w'' = calls w @
        (if period (clocks w c) \<le> time (clocks w c) + d then invocations (nodes w) as else [])"
    by (rule clock_tick_returns [OF p ch])
next
  assume a: "period (clocks v b) = 100 \<and> time (clocks v b) = 0 \<and>
    chain (nodes v) (observers (clocks v b)) bs"
  then have p: "period (clocks v b) \<noteq> 0" by simp
  from a have r: "period (clocks v b) \<le> time (clocks v b) + 250" by simp
  from a clock_tick_returns [OF p, of bs 250] r obtain v' where
    t: "clock_tick (Ptr b) 250 v = Some v'" and
    cl: "calls v' = calls v @ invocations (nodes v) bs"
    by auto
  note k = clock_tick_Some(2) [OF t p] and n = clock_tick_Some(3) [OF t p]
  from a r have "time (clocks v' b) = 0" "signal (clocks v' b) = False"
    by (simp_all add: k)
  moreover from r have "notifications v' = notifications v + 1" by (simp add: n)
  ultimately show "\<exists>v'. clock_tick (Ptr b) 250 v = Some v' \<and>
      notifications v' = notifications v + 1 \<and>
      calls v' = calls v @ invocations (nodes v) bs \<and>
      time (clocks v' b) = 0 \<and> signal (clocks v' b) = False"
    using t cl by blast
qed

theorem tick_notifies_at_most_once_witness:
  "period (clocks (clock_add_observer (Ptr 0) (Ptr 2)
       (clock_add_observer (Ptr 0) (Ptr 1) example_world)) 0) = 100 \<and>
   time (clocks (clock_add_observer (Ptr 0) (Ptr 2)
       (clock_add_observer (Ptr 0) (Ptr 1) example_world)) 0) = 0 \<and>
   chain (nodes (clock_add_observer (Ptr 0) (Ptr 2)
            (clock_add_observer (Ptr 0) (Ptr 1) example_world)))
     (observers (clocks (clock_add_observer (Ptr 0) (Ptr 2)
            (clock_add_observer (Ptr 0) (Ptr 1) example_world)) 0)) [2, 1] \<and>
   (\<exists>v'. clock_tick (Ptr 0) 250 (clock_add_observer (Ptr 0) (Ptr 2)
            (clock_add_observer (Ptr 0) (Ptr 1) example_world)) = Some v' \<and>
      notifications v' = 1 \<and>
      calls v' = [(Ptr 20, Ptr 21), (Ptr 10, Ptr 11)] \<and>
      time (clocks v' 0) = 0 \<and> signal (clocks v' 0) = False)"
proof -
  let ?v = "clock_add_observer (Ptr 0) (Ptr 2) (clock_add_observer (Ptr 0) (Ptr 1) example_world)"
  have a: "period (clocks ?v 0) = 100" "time (clocks ?v 0) = 0"
    "chain (nodes ?v) (observers (clocks ?v 0)) [2, 1]"
    by (simp_all add: clock_add_observer_def example_world_def)
  have b: "notifications ?v = 0" "calls ?v = []"
    "invocations (nodes ?v) [2, 1] = [(Ptr 20, Ptr 21), (Ptr 10, Ptr 11)]"
    by (simp_all add: clock_add_observer_def example_world_def)
  from tick_notifies_at_most_once [of ?v 0 250 _ "[2, 1]" ?v 0 "[2, 1]"] a
  obtain v' where t: "clock_tick (Ptr 0) 250 ?v = Some v'"
    and r: "notifications v' = notifications ?v + 1"
      "calls v' = calls ?v @ invocations (nodes ?v) [2, 1]"
      "time (clocks v' 0) = 0" "signal (clocks v' 0) = False"
    by blast
  from r(1,2) b have "notifications v' = 1" "calls v' = [(Ptr 20, Ptr 21), (Ptr 10, Ptr 11)]"
    by simp_all
  with a t r(3,4) show ?thesis by blast
qed

section \<open>The scenario of four ticks of 25\<close>

text \<open>
  C1, as stated, fails. The claim reads: with period 100 the signal after the four ticks of
  25 is HIGH, HIGH, LOW, LOW. After the second tick the accumulated time is 50, and
  \<open>50 < 50\<close> is false: the signal is LOW. After the fourth tick the accumulated time is
  100, \<open>100 mod 100 = 0 < 50\<close>: the signal is HIGH.
\<close>

theorem scenario_25_counterexample:
  "map_option (\<lambda>w'. signal (clocks w' 0))
     (tick_seq (Ptr 0) [25, 25] (projr (clock_init (Ptr 0) 100 (world0 :: 64 world))))
   = Some False \<and>
   map_option (\<lambda>w'. signal (clocks w' 0))
     (tick_seq (Ptr 0) [25, 25, 25, 25] (projr (clock_init (Ptr 0) 100 (world0 :: 64 world))))
   = Some True"
  by (simp add: clock_init_def world0_def clock_tick_def upd_clock_def Let_def
      clock_notify_listeners_def notify_loop.simps)

text \<open>
  C1, amended. For a 64-bit clock initialised with period 100, four successive ticks of 25
  all return; the signal after them is HIGH, LOW, LOW, HIGH; the phase is 25, 50, 75 and,
  reset by the fourth tick, 0; the first three ticks start no traversal and the fourth
  starts exactly one (which, the registry being empty, calls nobody).
\<close>

theorem scenario_25:
  fixes w :: "64 world"
  shows "\<exists>w0 w1 w2 w3 w4.
     clock_init (Ptr c) 100 w = Inr w0 \<and>
     clock_tick (Ptr c) 25 w0 = Some w1 \<and> clock_tick (Ptr c) 25 w1 = Some w2 \<and>
     clock_tick (Ptr c) 25 w2 = Some w3 \<and> clock_tick (Ptr c) 25 w3 = Some w4 \<and>
     signal (clocks w1 c) = True \<and> signal (clocks w2 c) = False \<and>
     signal (clocks w3 c) = False \<and> signal (clocks w4 c) = True \<and>
     time (clocks w1 c) = 25 \<and> time (clocks w2 c) = 50 \<and>
     time (clocks w3 c) = 75 \<and> time (clocks w4 c) = 0 \<and>
     notifications w1 = notifications w \<and> notifications w2 = notifications w \<and>
     notifications w3 = notifications w \<and> notifications w4 = notifications w + 1 \<and>
     calls w4 = calls w"
proof -
  obtain w0 where i: "clock_init (Ptr c) 100 w = Inr w0"
    and s0: "period (clocks w0 c) = 100" "time (clocks w0 c) = 0" "observers (clocks w0 c) = NULL"
      "notifications w0 = notifications w" "calls w0 = calls w"
    by (simp add: clock_init_def)
  have step: "\<exists>u'. clock_tick (Ptr c) 25 u = Some u' \<and> period (clocks u' c) = 100 \<and>
      observers (clocks u' c) = NULL \<and>
      time (clocks u' c) = (if 100 \<le> time (clocks u c) + 25 then 0 else time (clocks u c) + 25) \<and>
      signal (clocks u' c) = ((time (clocks u c) + 25) mod 100 < 50) \<and>
      notifications u' = notifications u + (if 100 \<le> time (clocks u c) + 25 then 1 else 0) \<and>
      calls u' = calls u"
    if "period (clocks u c) = 100" "observers (clocks u c) = NULL" for u :: "64 world"
  proof -
    from that have p: "period (clocks u c) \<noteq> 0" and ch: "chain (nodes u) (observers (clocks u c)) []"
      by simp_all
    from clock_tick_returns [OF p ch, of 25] obtain u' where
      t: "clock_tick (Ptr c) 25 u = Some u'" and cl: "calls u' = calls u" by auto
    from clock_tick_Some(2,3) [OF t p] that cl t show ?thesis by simp
  qed
  from step [OF s0(1,3)] s0 obtain w1 where 1: "clock_tick (Ptr c) 25 w0 = Some w1"
    "period (clocks w1 c) = 100" "observers (clocks w1 c) = NULL" "time (clocks w1 c) = 25"
    "signal (clocks w1 c) = True" "notifications w1 = notifications w" "calls w1 = calls w"
    by auto
  from step [OF 1(2,3)] 1 obtain w2 where 2: "clock_tick (Ptr c) 25 w1 = Some w2"
    "period (clocks w2 c) = 100" "observers (clocks w2 c) = NULL" "time (clocks w2 c) = 50"
    "signal (clocks w2 c) = False" "notifications w2 = notifications w" "calls w2 = calls w"
    by auto
  from step [OF 2(2,3)] 2 obtain w3 where 3: "clock_tick (Ptr c) 25 w2 = Some w3"
    "period (clocks w3 c) = 100" "observers (clocks w3 c) = NULL" "time (clocks w3 c) = 75"
    "signal (clocks w3 c) = False" "notifications w3 = notifications w" "calls w3 = calls w"
    by auto
  from step [OF 3(2,3)] 3 obtain w4 where 4: "clock_tick (Ptr c) 25 w3 = Some w4"
    "time (clocks w4 c) = 0"
    "signal (clocks w4 c) = True" "notifications w4 = notifications w + 1" "calls w4 = calls w"
    by auto
  from i 1 2 3 4 show ?thesis by blast
qed

section \<open>Ticks that add up to one period\<close>

lemma clock_tick_no_rollover:
  fixes w :: "'w::len world"
  assumes "unat (time (clocks w c)) + unat d < unat (period (clocks w c))"
  shows "\<exists>w'. clock_tick (Ptr c) d w = Some w' \<and>
           nodes w' = nodes w \<and> calls w' = calls w \<and> notifications w' = notifications w \<and>
           period (clocks w' c) = period (clocks w c) \<and>
           observers (clocks w' c) = observers (clocks w c) \<and>
           unat (time (clocks w' c)) = unat (time (clocks w c)) + unat d"
proof -
  let ?t = "time (clocks w c)" and ?p = "period (clocks w c)"
  have "unat ?p < 2 ^ LENGTH('w)" by simp
  with assms have "unat ?t + unat d < 2 ^ LENGTH('w)" by (rule less_trans)
  then have e: "unat (?t + d) = unat ?t + unat d" by (rule unat_add_lem [THEN iffD1])
  with assms have nr: "\<not> ?p \<le> ?t + d" by (simp add: word_le_nat_alt)
  from assms have p: "?p \<noteq> 0" by (auto simp: unat_eq_0)
  from p nr e show ?thesis by (simp add: clock_tick_def upd_clock_def Let_def)
qed

lemma tick_seq_below:
  fixes w :: "'w::len world"
  assumes "unat (time (clocks w c)) + sum_list (map unat ds) < unat (period (clocks w c))"
  shows "\<exists>w'. tick_seq (Ptr c) ds w = Some w' \<and>
           nodes w' = nodes w \<and> calls w' = calls w \<and> notifications w' = notifications w \<and>
           period (clocks w' c) = period (clocks w c) \<and>
           observers (clocks w' c) = observers (clocks w c) \<and>
           unat (time (clocks w' c)) = unat (time (clocks w c)) + sum_list (map unat ds)"
  using assms
proof (induction ds arbitrary: w)
  case Nil
  then show ?case by simp
next
  case (Cons d ds)
  from Cons.prems have "unat (time (clocks w c)) + unat d < unat (period (clocks w c))" by simp
  from clock_tick_no_rollover [OF this] obtain w1 where
    t: "clock_tick (Ptr c) d w = Some w1" and
    f: "nodes w1 = nodes w" "calls w1 = calls w" "notifications w1 = notifications w"
      "period (clocks w1 c) = period (clocks w c)"
      "observers (clocks w1 c) = observers (clocks w c)"
      "unat (time (clocks w1 c)) = unat (time (clocks w c)) + unat d"
    by blast
  from Cons.prems f have
    "unat (time (clocks w1 c)) + sum_list (map unat ds) < unat (period (clocks w1 c))" by simp
  from Cons.IH [OF this] obtain w' where
    "tick_seq (Ptr c) ds w1 = Some w'" "nodes w' = nodes w1" "calls w' = calls w1"
    "notifications w' = notifications w1" "period (clocks w' c) = period (clocks w1 c)"
    "observers (clocks w' c) = observers (clocks w1 c)"
    "unat (time (clocks w' c)) = unat (time (clocks w1 c)) + sum_list (map unat ds)"
    by blast
  with t f show ?case by simp
qed

lemma clock_tick_reach:
  fixes w :: "'w::len world"
  assumes "unat (time (clocks w c)) + unat d = unat (period (clocks w c))"
    and "period (clocks w c) \<noteq> 0"
    and "chain (nodes w) (observers (clocks w c)) as"
  shows "\<exists>w'. clock_tick (Ptr c) d w = Some w' \<and>
           nodes w' = nodes w \<and> calls w' = calls w @ invocations (nodes w) as \<and>
           notifications w' = notifications w + 1 \<and>
           period (clocks w' c) = period (clocks w c) \<and>
           observers (clocks w' c) = observers (clocks w c) \<and>
           time (clocks w' c) = 0"
proof -
  let ?t = "time (clocks w c)" and ?p = "period (clocks w c)"
  have "unat ?p < 2 ^ LENGTH('w)" by simp
  with assms(1) have "unat ?t + unat d < 2 ^ LENGTH('w)" by simp
  then have e: "unat (?t + d) = unat ?t + unat d" by (rule unat_add_lem [THEN iffD1])
  with assms(1) have r: "?p \<le> ?t + d" by (simp add: word_le_nat_alt)
  from clock_tick_returns [OF assms(2,3), of d] r obtain w' where
    t: "clock_tick (Ptr c) d w = Some w'" and cl: "calls w' = calls w @ invocations (nodes w) as"
    by auto
  from clock_tick_Some [OF t assms(2)] r cl t show ?thesis by simp
qed

lemma tick_seq_reach:
  fixes w :: "'w::len world"
  assumes "unat (time (clocks w c)) + sum_list (map unat ds) = unat (period (clocks w c))"
    and "unat (time (clocks w c)) < unat (period (clocks w c))"
    and "chain (nodes w) (observers (clocks w c)) as"
  shows "\<exists>w'. tick_seq (Ptr c) ds w = Some w' \<and>
           calls w' = calls w @ invocations (nodes w) as \<and>
           notifications w' = notifications w + 1 \<and>
           time (clocks w' c) = 0"
  using assms
proof (induction ds arbitrary: w)
  case Nil
  then show ?case by simp
next
  case (Cons d ds)
  let ?t = "time (clocks w c)" and ?p = "period (clocks w c)"
  from Cons.prems(2) have p: "?p \<noteq> 0" by (auto simp: unat_eq_0)
  show ?case
  proof (cases "unat ?t + unat d < unat ?p")
    case True
    from clock_tick_no_rollover [OF True] obtain w1 where
      t: "clock_tick (Ptr c) d w = Some w1" and
      f: "nodes w1 = nodes w" "calls w1 = calls w" "notifications w1 = notifications w"
        "period (clocks w1 c) = period (clocks w c)"
        "observers (clocks w1 c) = observers (clocks w c)"
        "unat (time (clocks w1 c)) = unat (time (clocks w c)) + unat d"
      by blast
    from Cons.prems f True have
      "unat (time (clocks w1 c)) + sum_list (map unat ds) = unat (period (clocks w1 c))"
      "unat (time (clocks w1 c)) < unat (period (clocks w1 c))"
      "chain (nodes w1) (observers (clocks w1 c)) as"
      by simp_all
    from Cons.IH [OF this] obtain w' where
      "tick_seq (Ptr c) ds w1 = Some w'" "calls w' = calls w1 @ invocations (nodes w1) as"
      "notifications w' = notifications w1 + 1" "time (clocks w' c) = 0"
      by blast
    with t f show ?thesis by simp
  next
    case False
    with Cons.prems(1) have e: "unat ?t + unat d = unat ?p" and z: "sum_list (map unat ds) = 0"
      unfolding list.map sum_list.Cons by linarith+
    from clock_tick_reach [OF e p Cons.prems(3)] obtain w1 where
      t: "clock_tick (Ptr c) d w = Some w1" and
      f: "nodes w1 = nodes w" "calls w1 = calls w @ invocations (nodes w) as"
        "notifications w1 = notifications w + 1"
        "period (clocks w1 c) = period (clocks w c)"
        "time (clocks w1 c) = 0"
      by blast
    from Cons.prems(2) have "0 < unat ?p" by linarith
    with f(4,5) have
      "unat (time (clocks w1 c)) + sum_list (map unat ds) < unat (period (clocks w1 c))"
      unfolding z by simp
    from tick_seq_below [OF this] obtain w' where
      "tick_seq (Ptr c) ds w1 = Some w'" "calls w' = calls w1"
      "notifications w' = notifications w1"
      "unat (time (clocks w' c)) = unat (time (clocks w1 c)) + sum_list (map unat ds)"
      by blast
    then have "time (clocks w' c) = 0" unfolding z using f(5) by (simp add: unat_eq_0)
    with \<open>tick_seq (Ptr c) ds w1 = Some w'\<close> \<open>calls w' = calls w1\<close>
      \<open>notifications w' = notifications w1\<close> t f show ?thesis by simp
  qed
qed

text \<open>
  C4. On a clock with period \<open>p > 0\<close> and phase 0 (as \<open>clock_init\<close> leaves it) whose
  registry is well formed, let the deltas of a sequence of ticks sum to exactly \<open>p\<close>. Then
  the whole sequence returns and starts exactly one traversal of the registry, in which
  each invocable observer is called once. Moreover after any first \<open>k\<close> ticks of the
  sequence no traversal has been started as long as their deltas sum to less than \<open>p\<close>,
  and exactly one has been started once they sum to \<open>p\<close>: the notification fires on the
  tick with which the cumulative phase reaches \<open>p\<close>, and on no earlier one.
\<close>

theorem ticks_summing_to_period:
  fixes w :: "'w::len world"
  assumes "period (clocks w c) \<noteq> 0"
    and "time (clocks w c) = 0"
    and "chain (nodes w) (observers (clocks w c)) as"
    and "sum_list (map unat ds) = unat (period (clocks w c))"
  shows "(\<exists>w'. tick_seq (Ptr c) ds w = Some w' \<and>
            notifications w' = notifications w + 1 \<and>
            calls w' = calls w @ invocations (nodes w) as) \<and>
         (\<forall>k\<le>length ds. \<exists>wk. tick_seq (Ptr c) (take k ds) w = Some wk \<and>
            notifications wk = notifications w +
              (if sum_list (map unat (take k ds)) < unat (period (clocks w c)) then 0 else 1) \<and>
            calls wk = calls w @
              (if sum_list (map unat (take k ds)) < unat (period (clocks w c)) then []
               else invocations (nodes w) as))"
proof -
  let ?p = "period (clocks w c)"
  from assms(1) have pos: "unat (time (clocks w c)) < unat ?p"
    by (simp add: assms(2) unat_gt_0)
  have pre: "\<exists>wk. tick_seq (Ptr c) (take k ds) w = Some wk \<and>
      notifications wk = notifications w +
        (if sum_list (map unat (take k ds)) < unat ?p then 0 else 1) \<and>
      calls wk = calls w @
        (if sum_list (map unat (take k ds)) < unat ?p then [] else invocations (nodes w) as)"
    for k
  proof (cases "sum_list (map unat (take k ds)) < unat ?p")
    case True
    then have "unat (time (clocks w c)) + sum_list (map unat (take k ds)) < unat ?p"
      by (simp add: assms(2))
    from tick_seq_below [OF this] True show ?thesis by auto
  next
    case False
    have "sum_list (map unat (take k ds)) + sum_list (map unat (drop k ds)) = sum_list (map unat ds)"
      by (simp flip: sum_list_append map_append)
    with False assms(4) have "sum_list (map unat (take k ds)) = unat ?p" by linarith
    then have "unat (time (clocks w c)) + sum_list (map unat (take k ds)) = unat ?p"
      by (simp add: assms(2))
    from tick_seq_reach [OF this pos assms(3)] False show ?thesis by auto
  qed
  from pre [of "length ds"] assms(4) show ?thesis using pre by auto
qed

theorem ticks_summing_to_period_witness:
  "period (clocks (clock_add_observer (Ptr 0) (Ptr 2)
       (clock_add_observer (Ptr 0) (Ptr 1) example_world)) 0) \<noteq> 0 \<and>
   time (clocks (clock_add_observer (Ptr 0) (Ptr 2)
       (clock_add_observer (Ptr 0) (Ptr 1) example_world)) 0) = 0 \<and>
   chain (nodes (clock_add_observer (Ptr 0) (Ptr 2)
            (clock_add_observer (Ptr 0) (Ptr 1) example_world)))
     (observers (clocks (clock_add_observer (Ptr 0) (Ptr 2)
            (clock_add_observer (Ptr 0) (Ptr 1) example_world)) 0)) [2, 1] \<and>
   sum_list (map unat [30, 0, 70, 0 :: 64 word]) =
     unat (period (clocks (clock_add_observer (Ptr 0) (Ptr 2)
       (clock_add_observer (Ptr 0) (Ptr 1) example_world)) 0)) \<and>
   (\<exists>w'. tick_seq (Ptr 0) [30, 0, 70, 0] (clock_add_observer (Ptr 0) (Ptr 2)
            (clock_add_observer (Ptr 0) (Ptr 1) example_world)) = Some w' \<and>
      notifications w' = 1 \<and> calls w' = [(Ptr 20, Ptr 21), (Ptr 10, Ptr 11)]) \<and>
   (\<exists>w2. tick_seq (Ptr 0) [30, 0] (clock_add_observer (Ptr 0) (Ptr 2)
            (clock_add_observer (Ptr 0) (Ptr 1) example_world)) = Some w2 \<and>
      notifications w2 = 0 \<and> calls w2 = [])"
proof -
  let ?v = "clock_add_observer (Ptr 0) (Ptr 2) (clock_add_observer (Ptr 0) (Ptr 1) example_world)"
  let ?ds = "[30, 0, 70, 0 :: 64 word]"
  have a: "period (clocks ?v 0) \<noteq> 0" "time (clocks ?v 0) = 0"
    "chain (nodes ?v) (observers (clocks ?v 0)) [2, 1]"
    "sum_list (map unat ?ds) = unat (period (clocks ?v 0))"
    by (simp_all add: clock_add_observer_def example_world_def)
  have b: "notifications ?v = 0" "calls ?v = []"
    "invocations (nodes ?v) [2, 1] = [(Ptr 20, Ptr 21), (Ptr 10, Ptr 11)]"
    "unat (period (clocks ?v 0)) = 100"
    by (simp_all add: clock_add_observer_def example_world_def)
  note th = ticks_summing_to_period [OF a]
  from th obtain w' where 1: "tick_seq (Ptr 0) ?ds ?v = Some w'"
    "notifications w' = notifications ?v + 1"
    "calls w' = calls ?v @ invocations (nodes ?v) [2, 1]"
    by blast
  have "(2::nat) \<le> length ?ds" by simp
  with th obtain w2 where 2: "tick_seq (Ptr 0) (take 2 ?ds) ?v = Some w2"
    "notifications w2 = notifications ?v +
       (if sum_list (map unat (take 2 ?ds)) < unat (period (clocks ?v 0)) then 0 else 1)"
    "calls w2 = calls ?v @
       (if sum_list (map unat (take 2 ?ds)) < unat (period (clocks ?v 0)) then []
        else invocations (nodes ?v) [2, 1])"
    by blast
  have tk: "take 2 ?ds = [30, 0]" by simp
  from 1 b have "notifications w' = 1" "calls w' = [(Ptr 20, Ptr 21), (Ptr 10, Ptr 11)]"
    by simp_all
  moreover from 2 b have "tick_seq (Ptr 0) [30, 0] ?v = Some w2" "notifications w2 = 0" "calls w2 = []"
    unfolding tk by simp_all
  ultimately show ?thesis using a 1(1) by blast
qed

section \<open>Adding to and removing from a well-formed registry\<close>

lemma chain_upd:
  "a \<notin> set as \<Longrightarrow> chain (h(a := n)) p as = chain h p as"
  by (induction as arbitrary: p) auto

lemma chain_fun:
  "chain h p as \<Longrightarrow> chain h p bs \<Longrightarrow> as = bs"
proof (induction as arbitrary: p bs)
  case Nil
  then show ?case by (cases bs) simp_all
next
  case (Cons a as)
  then show ?case by (cases bs) auto
qed

lemma chain_suffix:
  "chain h p (xs @ a # ys) \<Longrightarrow> chain h (Ptr a) (a # ys)"
  by (induction xs arbitrary: p) auto

lemma chain_distinct:
  "chain h p as \<Longrightarrow> distinct as"
proof (induction as arbitrary: p)
  case Nil
  then show ?case by simp
next
  case (Cons a as)
  have "a \<notin> set as"
  proof
    assume "a \<in> set as"
    then obtain xs ys where s: "as = xs @ a # ys" by (auto dest: split_list)
    from Cons.prems have "chain h (next (h a)) (xs @ a # ys)" by (simp add: s)
    then have "chain h (Ptr a) (a # ys)" by (rule chain_suffix)
    moreover from Cons.prems have "chain h (Ptr a) (a # xs @ a # ys)" by (simp add: s)
    ultimately have "a # ys = a # xs @ a # ys" by (rule chain_fun)
    then have "length ys = length (xs @ a # ys)" by simp
    then show False by simp
  qed
  moreover from Cons.prems have "chain h (next (h a)) as" by simp
  then have "distinct as" by (rule Cons.IH)
  ultimately show ?case by simp
qed

lemma load_store_same [simp]: "load (store w l p) l = p"
  by (cases l) simp_all

lemma load_store_other: "l \<noteq> l' \<Longrightarrow> load (store w l' p) l = load w l"
  by (cases l; cases l') auto

lemma nodes_store:
  "nodes (store w l p) = (case l of ClkObservers c \<Rightarrow> nodes w
                          | NodeNext b \<Rightarrow> (nodes w)(b := (nodes w b)\<lparr>next := p\<rparr>))"
  by (cases l) simp_all

lemma remove_loop_absent:
  "chain (nodes w) (load w l) as \<Longrightarrow> a \<notin> set as \<Longrightarrow> remove_loop l a w = Some w"
proof (induction as arbitrary: l)
  case Nil
  then show ?case by (subst remove_loop.simps) simp
next
  case (Cons x xs)
  from Cons.prems have "load w l = Ptr x" "x \<noteq> a" "chain (nodes w) (load w (NodeNext x)) xs"
    "a \<notin> set xs" by auto
  with Cons.IH [of "NodeNext x"] show ?case by (subst remove_loop.simps) simp
qed

lemma remove_loop_found:
  "chain (nodes w) (load w l) as \<Longrightarrow> a \<in> set as \<Longrightarrow>
   remove_loop l a w = Some (store w (link_of l a as) (next (nodes w a)))"
proof (induction as arbitrary: l)
  case Nil
  then show ?case by simp
next
  case (Cons x xs)
  from Cons.prems have lx: "load w l = Ptr x" and ch: "chain (nodes w) (load w (NodeNext x)) xs"
    by simp_all
  show ?case
  proof (cases "x = a")
    case True
    with lx show ?thesis by (subst remove_loop.simps) simp
  next
    case False
    with Cons.prems have "a \<in> set xs" by simp
    from Cons.IH [OF ch this] lx False show ?thesis by (subst remove_loop.simps) simp
  qed
qed

lemma link_of_NodeNext:
  "\<exists>y \<in> insert x (set xs). link_of (NodeNext x) a xs = NodeNext y"
  by (induction xs arbitrary: x) auto

lemma chain_unlink:
  "chain (nodes w) (load w l) as \<Longrightarrow> a \<in> set as \<Longrightarrow> outside l as \<Longrightarrow>
   chain (nodes (store w (link_of l a as) (next (nodes w a))))
     (load (store w (link_of l a as) (next (nodes w a))) l) (remove1 a as)"
proof (induction as arbitrary: l)
  case Nil
  then show ?case by simp
next
  case (Cons x xs)
  from Cons.prems(1) have lx: "load w l = Ptr x" and ch: "chain (nodes w) (next (nodes w x)) xs"
    by simp_all
  from chain_distinct [OF Cons.prems(1)] have d: "x \<notin> set xs" by simp
  show ?case
  proof (cases "x = a")
    case True
    let ?w1 = "store w l (next (nodes w a))"
    have "chain (nodes ?w1) (next (nodes w a)) xs"
    proof (cases l)
      case (ClkObservers c)
      with ch True show ?thesis by simp
    next
      case (NodeNext b)
      with Cons.prems(3) have "b \<notin> set xs" by simp
      then have "chain ((nodes w)(b := (nodes w b)\<lparr>next := next (nodes w a)\<rparr>)) (next (nodes w a)) xs
        = chain (nodes w) (next (nodes w a)) xs" by (rule chain_upd)
      with ch True NodeNext show ?thesis by simp
    qed
    with True show ?thesis by simp
  next
    case False
    with Cons.prems have ax: "a \<in> set xs" by simp
    let ?w1 = "store w (link_of (NodeNext x) a xs) (next (nodes w a))"
    from ch have "chain (nodes w) (load w (NodeNext x)) xs" by simp
    from Cons.IH [OF this ax] d
    have ih: "chain (nodes ?w1) (next (nodes ?w1 x)) (remove1 a xs)" by simp
    from link_of_NodeNext [of x xs a] obtain y where
      y: "y \<in> insert x (set xs)" "link_of (NodeNext x) a xs = NodeNext y" by blast
    with Cons.prems(3) have "l \<noteq> link_of (NodeNext x) a xs" by (cases l) auto
    then have "load ?w1 l = Ptr x" by (simp add: load_store_other lx)
    with ih False show ?thesis by simp
  qed
qed

lemma store_frame [simp]:
  "calls (store w l p) = calls w"
  "notifications (store w l p) = notifications w"
  "callback (nodes (store w l p) x) = callback (nodes w x)"
  "data (nodes (store w l p) x) = data (nodes w x)"
  by (cases l; simp)+

lemma invocations_cong:
  "(\<And>x. x \<in> set as \<Longrightarrow> callback (h x) = callback (h' x) \<and> data (h x) = data (h' x)) \<Longrightarrow>
   invocations h as = invocations h' as"
  by (induction as) simp_all

lemma clock_notify_listeners_chain:
  "chain (nodes w) (observers (clocks w c)) as \<Longrightarrow>
   clock_notify_listeners (Ptr c) w =
     Some (w\<lparr>notifications := notifications w + 1,
             calls := calls w @ invocations (nodes w) as\<rparr>)"
  using notify_loop_chain [of "w\<lparr>notifications := notifications w + 1\<rparr>" "observers (clocks w c)" as]
  by (simp add: clock_notify_listeners_def)

lemma clock_add_observer_chain:
  assumes "chain (nodes w) (observers (clocks w c)) as" and "a \<notin> set as"
  shows "chain (nodes (clock_add_observer (Ptr c) (Ptr a) w))
           (observers (clocks (clock_add_observer (Ptr c) (Ptr a) w) c)) (a # as)"
  using assms by (simp add: clock_add_observer_def chain_upd)

lemma clock_add_observer_frame [simp]:
  "calls (clock_add_observer clk obs w) = calls w"
  "notifications (clock_add_observer clk obs w) = notifications w"
  "callback (nodes (clock_add_observer clk obs w) x) = callback (nodes w x)"
  "data (nodes (clock_add_observer clk obs w) x) = data (nodes w x)"
  by (simp_all add: clock_add_observer_def split: ptr.splits)

lemma clock_remove_observer_chain:
  assumes "chain (nodes w) (observers (clocks w c)) as"
  shows "\<exists>w1. clock_remove_observer (Ptr c) (Ptr a) w = Some w1 \<and>
           chain (nodes w1) (observers (clocks w1 c)) (remove1 a as) \<and>
           calls w1 = calls w \<and> notifications w1 = notifications w \<and>
           (\<forall>x. callback (nodes w1 x) = callback (nodes w x) \<and> data (nodes w1 x) = data (nodes w x))"
proof (cases "a \<in> set as")
  case True
  from assms have ch: "chain (nodes w) (load w (ClkObservers c)) as" by simp
  let ?w1 = "store w (link_of (ClkObservers c) a as) (next (nodes w a))"
  from remove_loop_found [OF ch True]
  have "clock_remove_observer (Ptr c) (Ptr a) w = Some ?w1"
    by (simp add: clock_remove_observer_def)
  moreover from chain_unlink [OF ch True]
  have "chain (nodes ?w1) (observers (clocks ?w1 c)) (remove1 a as)" by simp
  ultimately show ?thesis by simp
next
  case False
  from assms have ch: "chain (nodes w) (load w (ClkObservers c)) as" by simp
  from remove_loop_absent [OF ch False]
  have "clock_remove_observer (Ptr c) (Ptr a) w = Some w"
    by (simp add: clock_remove_observer_def)
  with False assms show ?thesis by (simp add: remove1_idem)
qed

section \<open>Removing a handle that is not registered\<close>

text \<open>
  C9. Let the registry of a clock be a well-formed chain (what \<open>clock_init\<close>, additions of
  unregistered nodes and removals produce; the spec leaves registering a node twice
  undefined). Then \<open>clock_remove_observer\<close> with a handle that is not in the registry,
  whether \<open>NULL\<close>, never added or already removed, returns and leaves the whole store
  unchanged, so contents and order of the registry are as before. Hence for any handle,
  removing it returns a store on which removing it again changes nothing: twice equals
  once. After the removal the registry is the old chain without the handle, in the old
  order.
\<close>

theorem remove_absent_noop:
  assumes "chain (nodes w) (observers (clocks w c)) as"
  shows "(observer \<notin> Ptr ` set as \<longrightarrow> clock_remove_observer (Ptr c) observer w = Some w) \<and>
         (\<exists>w1. clock_remove_observer (Ptr c) observer w = Some w1 \<and>
                clock_remove_observer (Ptr c) observer w1 = Some w1 \<and>
                chain (nodes w1) (observers (clocks w1 c)) (filter (\<lambda>x. Ptr x \<noteq> observer) as))"
proof (cases observer)
  case NULL
  have "filter (\<lambda>x. Ptr x \<noteq> NULL) as = as" by simp
  with NULL assms show ?thesis by (simp add: clock_remove_observer_def)
next
  case (Ptr a)
  from assms have ch: "chain (nodes w) (load w (ClkObservers c)) as" by simp
  from chain_distinct [OF assms] have d: "distinct as" .
  then have f: "filter (\<lambda>x. Ptr x \<noteq> observer) as = remove1 a as"
    by (simp add: Ptr distinct_remove1_removeAll removeAll_filter_not_eq eq_commute)
  have 1: "clock_remove_observer (Ptr c) observer w = Some w" if "observer \<notin> Ptr ` set as"
  proof -
    from that Ptr have "a \<notin> set as" by auto
    from remove_loop_absent [OF ch this] Ptr show ?thesis
      by (simp add: clock_remove_observer_def)
  qed
  from clock_remove_observer_chain [OF assms, of a] obtain w1 where
    r: "clock_remove_observer (Ptr c) (Ptr a) w = Some w1" and
    ch1: "chain (nodes w1) (observers (clocks w1 c)) (remove1 a as)" by blast
  from ch1 have "chain (nodes w1) (load w1 (ClkObservers c)) (remove1 a as)" by simp
  moreover from d have "a \<notin> set (remove1 a as)" by simp
  ultimately have "remove_loop (ClkObservers c) a w1 = Some w1" by (rule remove_loop_absent)
  then have "clock_remove_observer (Ptr c) (Ptr a) w1 = Some w1"
    by (simp add: clock_remove_observer_def)
  with r ch1 1 f Ptr show ?thesis by auto
qed

theorem remove_absent_noop_witness:
  "chain (nodes (clock_add_observer (Ptr 0) (Ptr 2)
            (clock_add_observer (Ptr 0) (Ptr 1) example_world)))
     (observers (clocks (clock_add_observer (Ptr 0) (Ptr 2)
            (clock_add_observer (Ptr 0) (Ptr 1) example_world)) 0)) [2, 1] \<and>
   Ptr 5 \<notin> Ptr ` set [2, 1] \<and>
   clock_remove_observer (Ptr 0) (Ptr 5) (clock_add_observer (Ptr 0) (Ptr 2)
       (clock_add_observer (Ptr 0) (Ptr 1) example_world))
     = Some (clock_add_observer (Ptr 0) (Ptr 2)
       (clock_add_observer (Ptr 0) (Ptr 1) example_world)) \<and>
   (\<exists>w1. clock_remove_observer (Ptr 0) (Ptr 2) (clock_add_observer (Ptr 0) (Ptr 2)
            (clock_add_observer (Ptr 0) (Ptr 1) example_world)) = Some w1 \<and>
      clock_remove_observer (Ptr 0) (Ptr 2) w1 = Some w1 \<and>
      chain (nodes w1) (observers (clocks w1 0)) [1])"
proof -
  let ?v = "clock_add_observer (Ptr 0) (Ptr 2) (clock_add_observer (Ptr 0) (Ptr 1) example_world)"
  have a: "chain (nodes ?v) (observers (clocks ?v 0)) [2, 1]"
    by (simp add: clock_add_observer_def example_world_def)
  have b: "Ptr 5 \<notin> Ptr ` set [2, 1]" by simp
  have f: "filter (\<lambda>x. Ptr x \<noteq> Ptr 2) [2, 1] = [1]" by simp
  from remove_absent_noop [OF a, of "Ptr 5"] b
  have 1: "clock_remove_observer (Ptr 0) (Ptr 5) ?v = Some ?v" by blast
  from remove_absent_noop [OF a, of "Ptr 2"] obtain w1 where
    "clock_remove_observer (Ptr 0) (Ptr 2) ?v = Some w1"
    "clock_remove_observer (Ptr 0) (Ptr 2) w1 = Some w1"
    "chain (nodes w1) (observers (clocks w1 0)) [1]"
    unfolding f by blast
  with a b 1 show ?thesis by blast
qed

section \<open>Two observers\<close>

text \<open>
  C8, as stated, fails. The claim reads: after adding distinct observers A then B to an
  empty registry, one notification pass invokes each of A and B exactly once. The loop of
  \<open>clock_notify_listeners\<close> calls a node only \<open>if (obs->callback && obs->data)\<close>: with A
  a node whose callback is set and whose \<open>data\<close> is \<open>NULL\<close>, the pass calls B only.
\<close>

theorem add_two_notify_counterexample:
  "map_option calls
     (clock_notify_listeners (Ptr 0)
        (clock_add_observer (Ptr 0) (Ptr 2)
           (clock_add_observer (Ptr 0) (Ptr 1)
              (example_world\<lparr>nodes := (nodes example_world)
                 (1 := \<lparr>callback = Ptr 10, data = NULL, next = NULL\<rparr>)\<rparr>))))
   = Some [(Ptr 20, Ptr 21)]"
  by (simp add: example_world_def clock_add_observer_def clock_notify_listeners_def
      notify_loop.simps invoke_def)

text \<open>
  C8, amended. Let A and B be distinct observers whose callback and data are both set
  (non-null). After adding A then B to an empty registry, one \<open>clock_notify_listeners\<close>
  returns and has called exactly B's callback with B's data and then A's callback with A's
  data, each once, B first. If B is removed before, the removal returns and the pass then
  calls exactly A's callback with A's data, once.
\<close>

theorem add_two_notify:
  assumes "observers (clocks w c) = NULL" and "A \<noteq> B"
    and "callback (nodes w A) \<noteq> NULL" and "data (nodes w A) \<noteq> NULL"
    and "callback (nodes w B) \<noteq> NULL" and "data (nodes w B) \<noteq> NULL"
  shows "(\<exists>w3. clock_notify_listeners (Ptr c)
                 (clock_add_observer (Ptr c) (Ptr B) (clock_add_observer (Ptr c) (Ptr A) w))
               = Some w3 \<and>
               calls w3 = calls w @ [(callback (nodes w B), data (nodes w B)),
                                     (callback (nodes w A), data (nodes w A))]) \<and>
         (\<exists>w2 w3. clock_remove_observer (Ptr c) (Ptr B)
                 (clock_add_observer (Ptr c) (Ptr B) (clock_add_observer (Ptr c) (Ptr A) w))
               = Some w2 \<and>
               clock_notify_listeners (Ptr c) w2 = Some w3 \<and>
               calls w3 = calls w @ [(callback (nodes w A), data (nodes w A))])"
proof -
  let ?w1 = "clock_add_observer (Ptr c) (Ptr A) w"
  let ?w2 = "clock_add_observer (Ptr c) (Ptr B) ?w1"
  from assms(1) have "chain (nodes w) (observers (clocks w c)) []" by simp
  then have "chain (nodes ?w1) (observers (clocks ?w1 c)) [A]"
    by (rule clock_add_observer_chain) simp
  then have ch2: "chain (nodes ?w2) (observers (clocks ?w2 c)) [B, A]"
    by (rule clock_add_observer_chain) (use assms(2) in auto)
  have i2: "invocations (nodes ?w2) [B, A] =
      [(callback (nodes w B), data (nodes w B)), (callback (nodes w A), data (nodes w A))]"
    using assms(3-6) by simp
  from clock_notify_listeners_chain [OF ch2] i2
  have 1: "\<exists>w3. clock_notify_listeners (Ptr c) ?w2 = Some w3 \<and>
      calls w3 = calls w @ [(callback (nodes w B), data (nodes w B)),
                            (callback (nodes w A), data (nodes w A))]"
    by simp
  from clock_remove_observer_chain [OF ch2, of B] obtain w2 where
    r: "clock_remove_observer (Ptr c) (Ptr B) ?w2 = Some w2" and
    ch: "chain (nodes w2) (observers (clocks w2 c)) [A]" and
    fr: "calls w2 = calls ?w2"
      "\<forall>x. callback (nodes w2 x) = callback (nodes ?w2 x) \<and> data (nodes w2 x) = data (nodes ?w2 x)"
    by auto
  from fr(2) assms(3,4) have "invocations (nodes w2) [A] = [(callback (nodes w A), data (nodes w A))]"
    by simp
  with clock_notify_listeners_chain [OF ch] fr(1)
  have "\<exists>w3. clock_notify_listeners (Ptr c) w2 = Some w3 \<and>
      calls w3 = calls w @ [(callback (nodes w A), data (nodes w A))]"
    by simp
  with r 1 show ?thesis by blast
qed

theorem add_two_notify_witness:
  "observers (clocks example_world 0) = NULL \<and> (1::nat) \<noteq> 2 \<and>
   callback (nodes example_world 1) \<noteq> NULL \<and> data (nodes example_world 1) \<noteq> NULL \<and>
   callback (nodes example_world 2) \<noteq> NULL \<and> data (nodes example_world 2) \<noteq> NULL \<and>
   (\<exists>w3. clock_notify_listeners (Ptr 0)
            (clock_add_observer (Ptr 0) (Ptr 2) (clock_add_observer (Ptr 0) (Ptr 1) example_world))
          = Some w3 \<and>
      calls w3 = [(Ptr 20, Ptr 21), (Ptr 10, Ptr 11)]) \<and>
   (\<exists>w2 w3. clock_remove_observer (Ptr 0) (Ptr 2)
            (clock_add_observer (Ptr 0) (Ptr 2) (clock_add_observer (Ptr 0) (Ptr 1) example_world))
          = Some w2 \<and>
      clock_notify_listeners (Ptr 0) w2 = Some w3 \<and>
      calls w3 = [(Ptr 10, Ptr 11)])"
proof -
  have a: "observers (clocks example_world 0) = NULL" "(1::nat) \<noteq> 2"
    "callback (nodes example_world 1) \<noteq> NULL" "data (nodes example_world 1) \<noteq> NULL"
    "callback (nodes example_world 2) \<noteq> NULL" "data (nodes example_world 2) \<noteq> NULL"
    by (simp_all add: example_world_def)
  have b: "calls example_world = []"
    "(callback (nodes example_world 1), data (nodes example_world 1)) = (Ptr 10, Ptr 11)"
    "(callback (nodes example_world 2), data (nodes example_world 2)) = (Ptr 20, Ptr 21)"
    by (simp_all add: example_world_def)
  from add_two_notify [OF a] show ?thesis unfolding b using a by simp
qed

end
